theory Spec2Isabelle
  imports Main "HOL-Library.Word" "HOL-Library.Multiset"
begin

section \<open>Data model of cmd/trace/pprof.go\<close>

text \<open>
  Go's \<^verbatim>\<open>uint64\<close> and \<^verbatim>\<open>int64\<close> are 64-bit words: addition and subtraction wrap
  around. Both are the same bit vectors; \<open>unat\<close> reads the unsigned value and \<open>sint\<close>
  the signed one, so the conversion \<^verbatim>\<open>int64(rec.n)\<close> is the identity on the bits.
\<close>

type_synonym u64 = "64 word"
type_synonym i64 = "64 word"

text \<open>\<^verbatim>\<open>trace.Frame\<close>: the four fields \<^verbatim>\<open>buildProfile\<close> reads.\<close>

record Frame =
  PC :: u64
  Fn :: string
  File :: string
  Line :: i64

text \<open>
  The event type constants of \<^verbatim>\<open>internal/trace\<close> that the four profiles test; every
  other value of the type byte is \<open>EvOther\<close>.
\<close>

datatype event_type =
    EvGoCreate | EvGoUnblock | EvGoSysCall
  | EvGoBlockSend | EvGoBlockRecv | EvGoBlockSelect | EvGoBlockSync | EvGoBlockCond
  | EvGoBlockNet | EvGoBlockGC
  | EvOther

text \<open>
  \<^verbatim>\<open>trace.Event\<close>: \<open>Link\<close> is a pointer to the paired event, \<open>None\<close> when it is nil.
\<close>

datatype event = Event
  (Type: event_type) (G: u64) (Ts: i64) (Link: "event option") (StkID: u64) (Stk: "Frame list")

text \<open>\<^verbatim>\<open>type Record struct { stk []*trace.Frame; n uint64; time int64 }\<close>\<close>

record Record =
  stk :: "Frame list"
  n :: u64
  time :: i64

text \<open>
  A read \<^verbatim>\<open>prof[ev.StkID]\<close> of a key that is absent yields the zero \<^verbatim>\<open>Record\<close>.
\<close>

definition lookup_Record :: "(u64 \<rightharpoonup> Record) \<Rightarrow> u64 \<Rightarrow> Record" where
  "lookup_Record prof k =
     (case prof k of None \<Rightarrow> \<lparr>stk = [], n = 0, time = 0\<rparr> | Some r \<Rightarrow> r)"

text \<open>
  A read \<^verbatim>\<open>goroutines[ev.G]\<close> of a \<^verbatim>\<open>map[uint64]bool\<close>: false for an absent key.
\<close>

definition lookup_bool :: "(u64 \<rightharpoonup> bool) \<Rightarrow> u64 \<Rightarrow> bool" where
  "lookup_bool m k = (case m k of None \<Rightarrow> False | Some b \<Rightarrow> b)"

section \<open>The four aggregation loops\<close>

text \<open>
  Each \<open>_step\<close> is the body of the \<^verbatim>\<open>for _, ev := range events\<close> loop of one
  profile function; \<open>goroutines\<close> is the filter map, \<open>None\<close> when it is nil. Each
  \<open>_prof\<close> is the loop started from \<^verbatim>\<open>make(map[uint64]Record)\<close>.
\<close>

definition pprofIO_step ::
  "(u64 \<rightharpoonup> bool) option \<Rightarrow> (u64 \<rightharpoonup> Record) \<Rightarrow> event \<Rightarrow> (u64 \<rightharpoonup> Record)" where
  "pprofIO_step goroutines prof ev =
     (if Type ev \<noteq> EvGoBlockNet \<or> Link ev = None \<or> StkID ev = 0 \<or> length (Stk ev) = 0
      then prof
      else if goroutines \<noteq> None \<and> \<not> lookup_bool (the goroutines) (G ev)
      then prof
      else
        let rec = lookup_Record prof (StkID ev);
            rec = rec\<lparr>stk := Stk ev\<rparr>;
            rec = rec\<lparr>n := n rec + 1\<rparr>;
            rec = rec\<lparr>time := time rec + (Ts (the (Link ev)) - Ts ev)\<rparr>
        in prof(StkID ev \<mapsto> rec))"

definition pprofIO_prof :: "(u64 \<rightharpoonup> bool) option \<Rightarrow> event list \<Rightarrow> (u64 \<rightharpoonup> Record)" where
  "pprofIO_prof goroutines events = foldl (pprofIO_step goroutines) Map.empty events"

text \<open>
  In \<^verbatim>\<open>pprofBlock\<close> the \<^verbatim>\<open>switch ev.Type\<close> lets the six blocking types through and
  \<^verbatim>\<open>continue\<close>s on every other type.
\<close>

definition pprofBlock_step ::
  "(u64 \<rightharpoonup> bool) option \<Rightarrow> (u64 \<rightharpoonup> Record) \<Rightarrow> event \<Rightarrow> (u64 \<rightharpoonup> Record)" where
  "pprofBlock_step goroutines prof ev =
     (if (case Type ev of
            EvGoBlockSend \<Rightarrow> False | EvGoBlockRecv \<Rightarrow> False | EvGoBlockSelect \<Rightarrow> False
          | EvGoBlockSync \<Rightarrow> False | EvGoBlockCond \<Rightarrow> False | EvGoBlockGC \<Rightarrow> False
          | _ \<Rightarrow> True)
      then prof
      else if Link ev = None \<or> StkID ev = 0 \<or> length (Stk ev) = 0
      then prof
      else if goroutines \<noteq> None \<and> \<not> lookup_bool (the goroutines) (G ev)
      then prof
      else
        let rec = lookup_Record prof (StkID ev);
            rec = rec\<lparr>stk := Stk ev\<rparr>;
            rec = rec\<lparr>n := n rec + 1\<rparr>;
            rec = rec\<lparr>time := time rec + (Ts (the (Link ev)) - Ts ev)\<rparr>
        in prof(StkID ev \<mapsto> rec))"

definition pprofBlock_prof :: "(u64 \<rightharpoonup> bool) option \<Rightarrow> event list \<Rightarrow> (u64 \<rightharpoonup> Record)" where
  "pprofBlock_prof goroutines events = foldl (pprofBlock_step goroutines) Map.empty events"

definition pprofSyscall_step ::
  "(u64 \<rightharpoonup> bool) option \<Rightarrow> (u64 \<rightharpoonup> Record) \<Rightarrow> event \<Rightarrow> (u64 \<rightharpoonup> Record)" where
  "pprofSyscall_step goroutines prof ev =
     (if Type ev \<noteq> EvGoSysCall \<or> Link ev = None \<or> StkID ev = 0 \<or> length (Stk ev) = 0
      then prof
      else if goroutines \<noteq> None \<and> \<not> lookup_bool (the goroutines) (G ev)
      then prof
      else
        let rec = lookup_Record prof (StkID ev);
            rec = rec\<lparr>stk := Stk ev\<rparr>;
            rec = rec\<lparr>n := n rec + 1\<rparr>;
            rec = rec\<lparr>time := time rec + (Ts (the (Link ev)) - Ts ev)\<rparr>
        in prof(StkID ev \<mapsto> rec))"

definition pprofSyscall_prof :: "(u64 \<rightharpoonup> bool) option \<Rightarrow> event list \<Rightarrow> (u64 \<rightharpoonup> Record)" where
  "pprofSyscall_prof goroutines events = foldl (pprofSyscall_step goroutines) Map.empty events"

definition pprofSched_step ::
  "(u64 \<rightharpoonup> bool) option \<Rightarrow> (u64 \<rightharpoonup> Record) \<Rightarrow> event \<Rightarrow> (u64 \<rightharpoonup> Record)" where
  "pprofSched_step goroutines prof ev =
     (if (Type ev \<noteq> EvGoUnblock \<and> Type ev \<noteq> EvGoCreate) \<or>
         Link ev = None \<or> StkID ev = 0 \<or> length (Stk ev) = 0
      then prof
      else if goroutines \<noteq> None \<and> \<not> lookup_bool (the goroutines) (G ev)
      then prof
      else
        let rec = lookup_Record prof (StkID ev);
            rec = rec\<lparr>stk := Stk ev\<rparr>;
            rec = rec\<lparr>n := n rec + 1\<rparr>;
            rec = rec\<lparr>time := time rec + (Ts (the (Link ev)) - Ts ev)\<rparr>
        in prof(StkID ev \<mapsto> rec))"

definition pprofSched_prof :: "(u64 \<rightharpoonup> bool) option \<Rightarrow> event list \<Rightarrow> (u64 \<rightharpoonup> Record)" where
  "pprofSched_prof goroutines events = foldl (pprofSched_step goroutines) Map.empty events"

text \<open>
  The four routes registered by \<^verbatim>\<open>init\<close>: \<^verbatim>\<open>/io\<close>, \<^verbatim>\<open>/block\<close>, \<^verbatim>\<open>/syscall\<close> and
  \<^verbatim>\<open>/sched\<close>, each with its profile function.
\<close>

datatype category = IO | Block | Syscall | Sched

definition pprof_step ::
  "category \<Rightarrow> (u64 \<rightharpoonup> bool) option \<Rightarrow> (u64 \<rightharpoonup> Record) \<Rightarrow> event \<Rightarrow> (u64 \<rightharpoonup> Record)" where
  "pprof_step c =
     (case c of IO \<Rightarrow> pprofIO_step | Block \<Rightarrow> pprofBlock_step
      | Syscall \<Rightarrow> pprofSyscall_step | Sched \<Rightarrow> pprofSched_step)"

definition pprof_prof ::
  "category \<Rightarrow> (u64 \<rightharpoonup> bool) option \<Rightarrow> event list \<Rightarrow> (u64 \<rightharpoonup> Record)" where
  "pprof_prof c =
     (case c of IO \<Rightarrow> pprofIO_prof | Block \<Rightarrow> pprofBlock_prof
      | Syscall \<Rightarrow> pprofSyscall_prof | Sched \<Rightarrow> pprofSched_prof)"

subsection \<open>What the loops compute, in the words of the specification\<close>

text \<open>
  The event types of each category, the structural requirement, the goroutine filter, and
  the duration of one occurrence.
\<close>

definition category_type :: "category \<Rightarrow> event_type \<Rightarrow> bool" where
  "category_type c t =
     (case c of
        IO \<Rightarrow> t = EvGoBlockNet
      | Block \<Rightarrow> t \<in> {EvGoBlockSend, EvGoBlockRecv, EvGoBlockSelect, EvGoBlockSync,
                      EvGoBlockCond, EvGoBlockGC}
      | Syscall \<Rightarrow> t = EvGoSysCall
      | Sched \<Rightarrow> t \<in> {EvGoUnblock, EvGoCreate})"

definition structural :: "event \<Rightarrow> bool" where
  "structural ev = (Link ev \<noteq> None \<and> StkID ev \<noteq> 0 \<and> Stk ev \<noteq> [])"

definition passes_filter :: "(u64 \<rightharpoonup> bool) option \<Rightarrow> event \<Rightarrow> bool" where
  "passes_filter goroutines ev =
     (case goroutines of None \<Rightarrow> True | Some m \<Rightarrow> m (G ev) = Some True)"

definition qualifies :: "category \<Rightarrow> (u64 \<rightharpoonup> bool) option \<Rightarrow> event \<Rightarrow> bool" where
  "qualifies c goroutines ev =
     (category_type c (Type ev) \<and> structural ev \<and> passes_filter goroutines ev)"

definition duration :: "event \<Rightarrow> i64" where
  "duration ev = (case Link ev of None \<Rightarrow> 0 | Some l \<Rightarrow> Ts l - Ts ev)"

text \<open>The update of the map that a qualifying event makes.\<close>

definition add_event :: "(u64 \<rightharpoonup> Record) \<Rightarrow> event \<Rightarrow> (u64 \<rightharpoonup> Record)" where
  "add_event prof ev =
     prof(StkID ev \<mapsto>
       \<lparr>stk = Stk ev,
        n = n (lookup_Record prof (StkID ev)) + 1,
        time = time (lookup_Record prof (StkID ev)) + duration ev\<rparr>)"

text \<open>
  The Record of stack identifier \<open>k\<close> after a whole sequence, computed from the qualifying
  events of that identifier: the stack of the last one, their number, the sum of their
  durations.
\<close>

definition events_of :: "category \<Rightarrow> (u64 \<rightharpoonup> bool) option \<Rightarrow> event list \<Rightarrow> u64 \<Rightarrow> event list" where
  "events_of c goroutines events k = filter (\<lambda>e. qualifies c goroutines e \<and> StkID e = k) events"

definition aggregate :: "category \<Rightarrow> (u64 \<rightharpoonup> bool) option \<Rightarrow> event list \<Rightarrow> (u64 \<rightharpoonup> Record)" where
  "aggregate c goroutines events k =
     (let es = events_of c goroutines events k in
      if es = [] then None
      else Some \<lparr>stk = Stk (last es), n = of_nat (length es), time = sum_list (map duration es)\<rparr>)"

text \<open>The same from a map \<open>prof\<close> that the loop starts with.\<close>

definition aggregate_from ::
  "(u64 \<rightharpoonup> Record) \<Rightarrow> category \<Rightarrow> (u64 \<rightharpoonup> bool) option \<Rightarrow> event list \<Rightarrow> (u64 \<rightharpoonup> Record)" where
  "aggregate_from prof c goroutines events k =
     (let es = events_of c goroutines events k in
      if es = [] then prof k
      else Some \<lparr>stk = Stk (last es), n = n (lookup_Record prof k) + of_nat (length es),
                 time = time (lookup_Record prof k) + sum_list (map duration es)\<rparr>)"

text \<open>
  The (stack identifier, occurrence count, cumulative duration) triples of a map, as a
  multiset.
\<close>

definition triples :: "(u64 \<rightharpoonup> Record) \<Rightarrow> (u64 \<times> u64 \<times> i64) multiset" where
  "triples prof =
     image_mset (\<lambda>k. (k, n (the (prof k)), time (the (prof k)))) (mset_set (dom prof))"

section \<open>The goroutine filter\<close>

text \<open>
  \<^verbatim>\<open>trace.GDesc\<close>, the description of one goroutine that \<^verbatim>\<open>analyzeGoroutines\<close> leaves in
  the global \<^verbatim>\<open>gs\<close>: its id and the program counter of the function that started it.
\<close>

record GDesc =
  GDesc_ID :: u64
  GDesc_PC :: u64

text \<open>The two errors that \<^verbatim>\<open>pprofMatchingGoroutines\<close> makes with \<^verbatim>\<open>fmt.Errorf\<close>.\<close>

datatype error =
    InvalidGoroutineType string   \<comment> \<open>\<^verbatim>\<open>invalid goroutine type: %v\<close>\<close>
  | NoMatchingGoroutines string   \<comment> \<open>\<^verbatim>\<open>failed to find matching goroutines for id: %s\<close>\<close>

text \<open>\<^verbatim>\<open>len(res)\<close> of a map that may be nil.\<close>

definition len_map :: "('k \<rightharpoonup> 'v) option \<Rightarrow> nat" where
  "len_map res = (case res of None \<Rightarrow> 0 | Some m \<Rightarrow> card (dom m))"

text \<open>The body of \<^verbatim>\<open>for _, g := range gs\<close>; \<open>res\<close> starts as the nil map.\<close>

definition matching_step :: "u64 \<Rightarrow> (u64 \<rightharpoonup> bool) option \<Rightarrow> GDesc \<Rightarrow> (u64 \<rightharpoonup> bool) option" where
  "matching_step pc res g =
     (if GDesc_PC g \<noteq> pc then res
      else
        let res = (if res = None then Some Map.empty else res)
        in Some ((the res)(GDesc_ID g \<mapsto> True)))"

text \<open>
  \<^verbatim>\<open>pprofMatchingGoroutines\<close> returns a pair: the map (\<open>None\<close> for nil) and the error
  (\<open>None\<close> for nil). Two callees are not among the source files and are parameters:
  \<open>ParseUint\<close> stands for \<^verbatim>\<open>strconv.ParseUint(id, 10, 64)\<close>, \<open>None\<close> when it returns an
  error; \<open>analyzeGoroutines\<close> gives the values of \<^verbatim>\<open>gs\<close> in the order the \<^verbatim>\<open>range\<close>
  visits them.
\<close>

definition pprofMatchingGoroutines ::
  "(string \<Rightarrow> u64 option) \<Rightarrow> (event list \<Rightarrow> GDesc list) \<Rightarrow> string \<Rightarrow> event list \<Rightarrow>
     (u64 \<rightharpoonup> bool) option \<times> error option" where
  "pprofMatchingGoroutines ParseUint analyzeGoroutines id_str events =
     (if id_str = [] then (None, None)
      else
        case ParseUint id_str of
          None \<Rightarrow> (None, Some (InvalidGoroutineType id_str))
        | Some pc \<Rightarrow>
            let gs = analyzeGoroutines events;
                res = foldl (matching_step pc) None gs
            in if len_map res = 0 \<and> id_str \<noteq> []
               then (None, Some (NoMatchingGoroutines id_str))
               else (res, None))"

text \<open>
  The ids of the goroutines among \<open>gs\<close> whose program counter is \<open>pc\<close>, and the map that
  holds \<^verbatim>\<open>true\<close> for exactly the ids of a set.
\<close>

definition matching_ids :: "u64 \<Rightarrow> GDesc list \<Rightarrow> u64 set" where
  "matching_ids pc gs = set (map GDesc_ID (filter (\<lambda>g. GDesc_PC g = pc) gs))"

definition true_on :: "u64 set \<Rightarrow> (u64 \<rightharpoonup> bool)" where
  "true_on ids = (\<lambda>k. if k \<in> ids then Some True else None)"

text \<open>
  Modelled from the spec: \<^verbatim>\<open>strconv.ParseUint\<close> is not among the source files; the
  identifier is "a base-10 unsigned integer string", parsed into 64 bits. A string parses
  when it is a non-empty run of decimal digits whose value is below \<open>2 ^ 64\<close>.
\<close>

fun parse_digits :: "nat \<Rightarrow> string \<Rightarrow> nat option" where
  "parse_digits acc [] = Some acc"
| "parse_digits acc (c # cs) =
     (if 48 \<le> (of_char c :: nat) \<and> (of_char c :: nat) \<le> 57
      then parse_digits (acc * 10 + (of_char c - 48)) cs
      else None)"

definition ParseUint10 :: "string \<Rightarrow> u64 option" where
  "ParseUint10 s =
     (if s = [] then None
      else case parse_digits 0 s of
             None \<Rightarrow> None
           | Some v \<Rightarrow> if v < 2 ^ 64 then Some (of_nat v) else None)"

section \<open>The profile builder\<close>

text \<open>
  The types of \<^verbatim>\<open>github.com/google/pprof/profile\<close> with the fields \<^verbatim>\<open>buildProfile\<close>
  sets. A \<^verbatim>\<open>*profile.Function\<close> or \<^verbatim>\<open>*profile.Location\<close> is never written through after
  it is made, so a pointer is modelled by the value it points to.
\<close>

record Function =
  Function_ID :: u64
  Function_Name :: string
  Function_SystemName :: string
  Function_Filename :: string

record Line =
  Line_Function :: Function
  Line_Line :: i64

record Location =
  Location_ID :: u64
  Location_Address :: u64
  Location_Line :: "Line list"

record Sample =
  Sample_Value :: "i64 list"
  Sample_Location :: "Location list"

record ValueType =
  ValueType_Type :: string
  ValueType_Unit :: string

record Profile =
  Profile_PeriodType :: ValueType
  Profile_Period :: i64
  Profile_SampleType :: "ValueType list"
  Profile_Sample :: "Sample list"
  Profile_Location :: "Location list"
  Profile_Function :: "Function list"

text \<open>
  The state of \<^verbatim>\<open>buildProfile\<close>: the profile \<^verbatim>\<open>p\<close> and the two maps \<^verbatim>\<open>locs\<close> and
  \<^verbatim>\<open>funcs\<close>. A lookup of an absent key gives nil, here \<open>None\<close>; no nil is ever stored.
\<close>

record build_state =
  st_p :: Profile
  st_locs :: "u64 \<rightharpoonup> Location"
  st_funcs :: "string \<rightharpoonup> Function"

definition init_state :: build_state where
  "init_state =
     \<lparr>st_p = \<lparr>Profile_PeriodType = \<lparr>ValueType_Type = ''trace'', ValueType_Unit = ''count''\<rparr>,
              Profile_Period = 1,
              Profile_SampleType =
                [\<lparr>ValueType_Type = ''contentions'', ValueType_Unit = ''count''\<rparr>,
                 \<lparr>ValueType_Type = ''delay'', ValueType_Unit = ''nanoseconds''\<rparr>],
              Profile_Sample = [], Profile_Location = [], Profile_Function = []\<rparr>,
      st_locs = Map.empty, st_funcs = Map.empty\<rparr>"

text \<open>
  \<^verbatim>\<open>fn := funcs[frame.File+frame.Fn]\<close> and the \<^verbatim>\<open>if fn == nil\<close> block: the function found
  or made, and the state after it.
\<close>

definition get_function :: "build_state \<Rightarrow> Frame \<Rightarrow> Function \<times> build_state" where
  "get_function s frame =
     (case st_funcs s (File frame @ Fn frame) of
        Some fn \<Rightarrow> (fn, s)
      | None \<Rightarrow>
          let fn = \<lparr>Function_ID = of_nat (length (Profile_Function (st_p s)) + 1),
                    Function_Name = Fn frame,
                    Function_SystemName = Fn frame,
                    Function_Filename = File frame\<rparr>
          in (fn, s\<lparr>st_p := (st_p s)\<lparr>Profile_Function := Profile_Function (st_p s) @ [fn]\<rparr>,
                    st_funcs := (st_funcs s)(File frame @ Fn frame \<mapsto> fn)\<rparr>))"

text \<open>The body of \<^verbatim>\<open>for _, frame := range rec.stk\<close>, on the state and \<^verbatim>\<open>sloc\<close>.\<close>

definition frame_step :: "build_state \<Rightarrow> Location list \<Rightarrow> Frame \<Rightarrow> build_state \<times> Location list" where
  "frame_step s sloc frame =
     (case st_locs s (PC frame) of
        Some loc \<Rightarrow> (s, sloc @ [loc])
      | None \<Rightarrow>
          (case get_function s frame of
             (fn, s1) \<Rightarrow>
               let loc = \<lparr>Location_ID = of_nat (length (Profile_Location (st_p s1)) + 1),
                          Location_Address = PC frame,
                          Location_Line = [\<lparr>Line_Function = fn, Line_Line = Line frame\<rparr>]\<rparr>
               in (s1\<lparr>st_p := (st_p s1)\<lparr>Profile_Location := Profile_Location (st_p s1) @ [loc]\<rparr>,
                       st_locs := (st_locs s1)(PC frame \<mapsto> loc)\<rparr>,
                   sloc @ [loc])))"

fun frames_loop :: "build_state \<Rightarrow> Location list \<Rightarrow> Frame list \<Rightarrow> build_state \<times> Location list" where
  "frames_loop s sloc [] = (s, sloc)"
| "frames_loop s sloc (frame # frames) =
     (case frame_step s sloc frame of (s1, sloc1) \<Rightarrow> frames_loop s1 sloc1 frames)"

text \<open>The body of \<^verbatim>\<open>for _, rec := range prof\<close>: \<^verbatim>\<open>sloc\<close> starts nil, one Sample is appended.\<close>

definition record_step :: "build_state \<Rightarrow> Record \<Rightarrow> build_state" where
  "record_step s rec =
     (case frames_loop s [] (stk rec) of
        (s1, sloc) \<Rightarrow>
          s1\<lparr>st_p := (st_p s1)\<lparr>Profile_Sample := Profile_Sample (st_p s1) @
                 [\<lparr>Sample_Value = [n rec, time rec], Sample_Location = sloc\<rparr>]\<rparr>\<rparr>)"

definition buildProfile_records :: "Record list \<Rightarrow> Profile" where
  "buildProfile_records recs = st_p (foldl record_step init_state recs)"

text \<open>
  Go does not fix the order in which \<^verbatim>\<open>range\<close> visits a map. The order is the parameter
  \<open>ks\<close>, a list of the keys: \<open>iteration_order ks prof\<close> says that it visits every key of
  \<open>prof\<close> once.
\<close>

definition iteration_order :: "u64 list \<Rightarrow> (u64 \<rightharpoonup> Record) \<Rightarrow> bool" where
  "iteration_order ks prof = (distinct ks \<and> set ks = dom prof)"

definition range_records :: "u64 list \<Rightarrow> (u64 \<rightharpoonup> Record) \<Rightarrow> Record list" where
  "range_records ks prof = concat (map (\<lambda>k. case prof k of None \<Rightarrow> [] | Some r \<Rightarrow> [r]) ks)"

definition buildProfile :: "u64 list \<Rightarrow> (u64 \<rightharpoonup> Record) \<Rightarrow> Profile" where
  "buildProfile ks prof = buildProfile_records (range_records ks prof)"

subsection \<open>Notions used to state what the builder produces\<close>

text \<open>
  \<open>first_by f xs\<close> keeps, in order, the elements of \<open>xs\<close> whose \<open>f\<close> has not occurred
  before: the first-seen order.
\<close>

definition first_by :: "('a \<Rightarrow> 'b) \<Rightarrow> 'a list \<Rightarrow> 'a list" where
  "first_by f xs = foldl (\<lambda>acc x. if f x \<in> f ` set acc then acc else acc @ [x]) [] xs"

definition frames_of :: "Record list \<Rightarrow> Frame list" where
  "frames_of recs = concat (map stk recs)"

definition all_frames :: "(u64 \<rightharpoonup> Record) \<Rightarrow> Frame set" where
  "all_frames prof = (\<Union>r \<in> ran prof. set (stk r))"

definition frame_key :: "Frame \<Rightarrow> string" where
  "frame_key frame = File frame @ Fn frame"

definition function_key :: "Function \<Rightarrow> string" where
  "function_key fn = Function_Filename fn @ Function_Name fn"

text \<open>
  The invariant of the two loops of \<^verbatim>\<open>buildProfile\<close>, after the frames \<open>F\<close> (in the order
  they were visited): the Location list holds one entry per program counter, in
  first-seen order; the Function list holds one entry per key \<^verbatim>\<open>File+Fn\<close> among the frames
  that made a Location, in first-seen order; each map finds exactly the entries of its
  list; the IDs count from 1; every Location names a Function of the list and every
  Sample names Locations of the list.
\<close>

abbreviation Ls :: "build_state \<Rightarrow> Location list" where
  "Ls s \<equiv> Profile_Location (st_p s)"

abbreviation Fs :: "build_state \<Rightarrow> Function list" where
  "Fs s \<equiv> Profile_Function (st_p s)"

definition build_inv :: "Frame list \<Rightarrow> build_state \<Rightarrow> bool" where
  "build_inv F s =
     (map Location_Address (Ls s) = map PC (first_by PC F) \<and>
      (\<forall>pc. st_locs s pc = find (\<lambda>l. Location_Address l = pc) (Ls s)) \<and>
      map function_key (Fs s) = map frame_key (first_by frame_key (first_by PC F)) \<and>
      (\<forall>k. st_funcs s k = find (\<lambda>fn. function_key fn = k) (Fs s)) \<and>
      map Location_ID (Ls s) = map of_nat [1..<length (Ls s) + 1] \<and>
      map Function_ID (Fs s) = map of_nat [1..<length (Fs s) + 1] \<and>
      (\<forall>loc\<in>set (Ls s). \<exists>fn\<in>set (Fs s). \<exists>ln.
          Location_Line loc = [\<lparr>Line_Function = fn, Line_Line = ln\<rparr>]) \<and>
      (\<forall>smp\<in>set (Profile_Sample (st_p s)). set (Sample_Location smp) \<subseteq> set (Ls s)))"

section \<open>The render service\<close>

text \<open>
  \<^verbatim>\<open>serveSVGProfile\<close> works on the file system and on a subprocess. The file system is the
  set of the paths that exist. What the calls outside this file answer in one request is
  the record \<open>env\<close>.
\<close>






section \<open>Concrete inputs\<close>

text \<open>Frames, events and records on which the theorems below are evaluated.\<close>

definition frame_f :: Frame where
  "frame_f = \<lparr>PC = 1, Fn = ''main.f'', File = ''a.go'', Line = 3\<rparr>"

definition frame_g :: Frame where
  "frame_g = \<lparr>PC = 1, Fn = ''main.g'', File = ''a.go'', Line = 9\<rparr>"

definition frame_h :: Frame where
  "frame_h = \<lparr>PC = 2, Fn = ''main.h'', File = ''b.go'', Line = 5\<rparr>"

definition ev_100 :: event where
  "ev_100 = Event EvGoBlockNet 1 1000 (Some (Event EvGoUnblock 2 1100 None 0 [])) 42 [frame_f]"

definition ev_150 :: event where
  "ev_150 = Event EvGoBlockNet 3 2000 (Some (Event EvGoUnblock 2 2150 None 0 [])) 42 [frame_h]"

definition ev_nolink :: event where
  "ev_nolink = Event EvGoBlockNet 1 3000 None 42 [frame_f]"

definition prof_fg :: "u64 \<rightharpoonup> Record" where
  "prof_fg = [7 \<mapsto> \<lparr>stk = [frame_f, frame_g], n = 1, time = 5\<rparr>]"

definition prof_fh :: "u64 \<rightharpoonup> Record" where
  "prof_fh = [7 \<mapsto> \<lparr>stk = [frame_f, frame_h, frame_f], n = 2, time = 250\<rparr>,
              9 \<mapsto> \<lparr>stk = [frame_h], n = 1, time = 10\<rparr>]"

text \<open>
  What \<^verbatim>\<open>buildProfile\<close> makes of \<open>prof_fh\<close> when the loop visits key 9 before key 7.
\<close>

definition fn_h :: Function where
  "fn_h = \<lparr>Function_ID = 1, Function_Name = ''main.h'', Function_SystemName = ''main.h'',
           Function_Filename = ''b.go''\<rparr>"

definition fn_f :: Function where
  "fn_f = \<lparr>Function_ID = 2, Function_Name = ''main.f'', Function_SystemName = ''main.f'',
           Function_Filename = ''a.go''\<rparr>"

definition loc_h :: Location where
  "loc_h = \<lparr>Location_ID = 1, Location_Address = 2,
            Location_Line = [\<lparr>Line_Function = fn_h, Line_Line = 5\<rparr>]\<rparr>"

definition loc_f :: Location where
  "loc_f = \<lparr>Location_ID = 2, Location_Address = 1,
            Location_Line = [\<lparr>Line_Function = fn_f, Line_Line = 3\<rparr>]\<rparr>"

definition smp_h :: Sample where
  "smp_h = \<lparr>Sample_Value = [1, 10], Sample_Location = [loc_h]\<rparr>"

definition smp_f :: Sample where
  "smp_f = \<lparr>Sample_Value = [2, 250], Sample_Location = [loc_f, loc_h, loc_f]\<rparr>"

definition gs_example :: "GDesc list" where
  "gs_example = [\<lparr>GDesc_ID = 1, GDesc_PC = 7\<rparr>, \<lparr>GDesc_ID = 2, GDesc_PC = 8\<rparr>,
                 \<lparr>GDesc_ID = 3, GDesc_PC = 7\<rparr>]"




section \<open>What the aggregation loops compute\<close>

lemma pprof_step_eq:
  "pprof_step c goroutines prof ev =
     (if qualifies c goroutines ev then add_event prof ev else prof)"
proof (cases c)
  case IO
  then show ?thesis
    by (auto simp: pprof_step_def pprofIO_step_def qualifies_def category_type_def structural_def
        passes_filter_def add_event_def duration_def lookup_bool_def Let_def
        split: option.splits)
next
  case Block
  then show ?thesis
    by (auto simp: pprof_step_def pprofBlock_step_def qualifies_def category_type_def structural_def
        passes_filter_def add_event_def duration_def lookup_bool_def Let_def
        split: option.splits event_type.splits)
next
  case Syscall
  then show ?thesis
    by (auto simp: pprof_step_def pprofSyscall_step_def qualifies_def category_type_def structural_def
        passes_filter_def add_event_def duration_def lookup_bool_def Let_def
        split: option.splits)
next
  case Sched
  then show ?thesis
    by (auto simp: pprof_step_def pprofSched_step_def qualifies_def category_type_def structural_def
        passes_filter_def add_event_def duration_def lookup_bool_def Let_def
        split: option.splits)
qed

lemma pprof_step_simps:
  "pprof_step IO = pprofIO_step" "pprof_step Block = pprofBlock_step"
  "pprof_step Syscall = pprofSyscall_step" "pprof_step Sched = pprofSched_step"
  by (simp_all add: pprof_step_def)

lemma pprof_prof_simps:
  "pprof_prof IO = pprofIO_prof" "pprof_prof Block = pprofBlock_prof"
  "pprof_prof Syscall = pprofSyscall_prof" "pprof_prof Sched = pprofSched_prof"
  by (simp_all add: pprof_prof_def)

lemma pprof_prof_foldl:
  "pprof_prof c goroutines events = foldl (pprof_step c goroutines) Map.empty events"
  by (cases c)
    (simp_all add: pprof_prof_def pprof_step_def pprofIO_prof_def pprofBlock_prof_def
      pprofSyscall_prof_def pprofSched_prof_def)

lemma foldl_pprof_step:
  "foldl (pprof_step c goroutines) prof events k = aggregate_from prof c goroutines events k"
proof (induction events rule: rev_induct)
  case Nil
  then show ?case by (simp add: aggregate_from_def events_of_def)
next
  case (snoc ev events)
  show ?case
  proof (cases "qualifies c goroutines ev \<and> StkID ev = k")
    case True
    then show ?thesis
      using snoc
      by (simp add: pprof_step_eq add_event_def aggregate_from_def events_of_def Let_def
          lookup_Record_def algebra_simps)
  next
    case False
    then show ?thesis
      using snoc
      by (auto simp add: pprof_step_eq add_event_def aggregate_from_def events_of_def Let_def)
  qed
qed

lemma pprof_prof_aggregate: "pprof_prof c goroutines events = aggregate c goroutines events"
  by (rule ext)
    (simp add: pprof_prof_foldl foldl_pprof_step aggregate_from_def aggregate_def
      lookup_Record_def Let_def)

lemma pprof_prof_skip:
  assumes "\<not> qualifies c goroutines ev"
  shows "pprof_prof c goroutines (xs @ ev # ys) = pprof_prof c goroutines (xs @ ys)"
  using assms by (simp add: pprof_prof_foldl pprof_step_eq)

lemma not_structural_not_qualifies:
  "Link ev = None \<or> StkID ev = 0 \<or> Stk ev = [] \<Longrightarrow> \<not> qualifies c goroutines ev"
  by (auto simp: qualifies_def structural_def)

lemma qualifies_duration:
  "qualifies c goroutines ev \<Longrightarrow> duration ev = Ts (the (Link ev)) - Ts ev"
  by (auto simp: qualifies_def structural_def duration_def)

lemma events_of_filter:
  "events_of c goroutines events k =
     filter (\<lambda>e. StkID e = k) (filter (qualifies c goroutines) events)"
  by (simp add: events_of_def conj_commute)

lemma mset_events_of:
  assumes "mset events' = mset events"
  shows "mset (events_of c goroutines events' k) = mset (events_of c goroutines events k)"
  by (simp add: events_of_def assms)

lemma aggregate_perm:
  assumes "mset events' = mset events"
  shows "map_option (\<lambda>r. (n r, time r)) (aggregate c goroutines events' k) =
         map_option (\<lambda>r. (n r, time r)) (aggregate c goroutines events k)"
proof -
  let ?es' = "events_of c goroutines events' k" and ?es = "events_of c goroutines events k"
  have m: "mset ?es' = mset ?es" by (rule mset_events_of [OF assms])
  have len: "length ?es' = length ?es"
    using m by (rule mset_eq_length)
  have "mset (map duration ?es') = mset (map duration ?es)"
    using m by simp
  then have "sum_mset (mset (map duration ?es')) = sum_mset (mset (map duration ?es))"
    by (rule arg_cong)
  then have sum: "sum_list (map duration ?es') = sum_list (map duration ?es)"
    by (simp only: sum_mset_sum_list)
  have emp: "?es' = [] \<longleftrightarrow> ?es = []"
    using len by auto
  show ?thesis
    by (simp add: aggregate_def Let_def len sum emp)
qed

lemma triples_cong:
  assumes "\<And>k. map_option (\<lambda>r. (n r, time r)) (p k) = map_option (\<lambda>r. (n r, time r)) (q k)"
  shows "triples p = triples q"
proof -
  have dom: "dom p = dom q"
  proof (rule set_eqI)
    fix k show "k \<in> dom p \<longleftrightarrow> k \<in> dom q"
      using assms [of k] by (cases "p k"; cases "q k") auto
  qed
  have val: "(k, n (the (p k)), time (the (p k))) = (k, n (the (q k)), time (the (q k)))"
    if "k \<in> dom q" for k
    using assms [of k] that by (cases "p k"; cases "q k") auto
  have "finite (dom q) \<or> infinite (dom q)" by simp
  then show ?thesis
  proof
    assume fin: "finite (dom q)"
    show ?thesis
      unfolding triples_def dom
      by (rule image_mset_cong) (simp add: fin val)
  next
    assume "infinite (dom q)"
    then show ?thesis by (simp add: triples_def dom)
  qed
qed

lemma distinct_singleton:
  assumes "distinct ks" and "set ks = {a}"
  shows "ks = [a]"
proof (cases ks)
  case Nil
  with assms show ?thesis by simp
next
  case (Cons x xs)
  with assms have "x = a" by auto
  moreover have "xs = []"
  proof (rule ccontr)
    assume "xs \<noteq> []"
    then obtain y where "y \<in> set xs" by (cases xs) auto
    with assms Cons show False by auto
  qed
  ultimately show ?thesis using Cons by simp
qed

lemma pprofIO_prof_three:
  "pprofIO_prof None [ev_100, ev_nolink, ev_150] = [42 \<mapsto> \<lparr>stk = Stk ev_150, n = 2, time = 250\<rparr>]"
  by (rule ext)
    (simp add: pprofIO_prof_def pprofIO_step_def ev_100_def ev_nolink_def ev_150_def
      lookup_Record_def Let_def frame_f_def frame_h_def)

lemma qualifies_examples:
  "qualifies IO None ev_100" "qualifies IO None ev_150" "\<not> qualifies IO None ev_nolink"
  by (simp_all add: qualifies_def category_type_def structural_def passes_filter_def
      ev_100_def ev_150_def ev_nolink_def frame_f_def frame_h_def)

section \<open>The invariant of the builder\<close>

lemma first_by_Nil [simp]: "first_by f [] = []"
  by (simp add: first_by_def)

lemma first_by_snoc:
  "first_by f (xs @ [x]) =
     (if f x \<in> f ` set (first_by f xs) then first_by f xs else first_by f xs @ [x])"
  by (simp add: first_by_def)

lemma image_first_by: "f ` set (first_by f xs) = f ` set xs"
  by (induction xs rule: rev_induct) (auto simp: first_by_snoc)

lemma set_first_by: "set (first_by f xs) \<subseteq> set xs"
  by (induction xs rule: rev_induct) (auto simp: first_by_snoc)

lemma distinct_first_by: "distinct (map f (first_by f xs))"
  by (induction xs rule: rev_induct) (auto simp: first_by_snoc)

lemma length_first_by: "length (first_by f xs) = card (f ` set xs)"
proof -
  have "card (set (map f (first_by f xs))) = length (map f (first_by f xs))"
    by (rule distinct_card) (rule distinct_first_by)
  then show ?thesis by (simp add: image_first_by)
qed

lemma find_snoc:
  "find P (xs @ [x]) = (case find P xs of Some y \<Rightarrow> Some y | None \<Rightarrow> if P x then Some x else None)"
  by (induction xs) auto

lemma find_None_image: "find (\<lambda>x. f x = k) xs = None \<longleftrightarrow> k \<notin> f ` set xs"
  by (auto simp: find_None_iff)

lemma find_Some_mem: "find P xs = Some x \<Longrightarrow> x \<in> set xs \<and> P x"
  by (induction xs) (auto split: if_splits)

lemma upt_Suc_snoc: "[1..<Suc (Suc k)] = [1..<Suc k] @ [Suc k]"
  by simp

lemma build_inv_init: "build_inv [] init_state"
  by (simp add: build_inv_def init_state_def)

lemma frame_step_seen:
  assumes "build_inv F s" and "st_locs s (PC f) = Some loc"
  shows "frame_step s sloc f = (s, sloc @ [loc])"
    and "build_inv (F @ [f]) s"
    and "loc \<in> set (Ls s)" and "Location_Address loc = PC f"
proof -
  show "frame_step s sloc f = (s, sloc @ [loc])"
    using assms(2) by (simp add: frame_step_def)
  have fnd: "find (\<lambda>l. Location_Address l = PC f) (Ls s) = Some loc"
    using assms by (simp add: build_inv_def)
  from find_Some_mem [OF fnd] show "loc \<in> set (Ls s)" and "Location_Address loc = PC f"
    by simp_all
  then have "PC f \<in> Location_Address ` set (Ls s)" by force
  also have "Location_Address ` set (Ls s) = set (map Location_Address (Ls s))" by simp
  also have "\<dots> = PC ` set (first_by PC F)"
    using assms(1) by (simp add: build_inv_def)
  finally have "first_by PC (F @ [f]) = first_by PC F"
    by (simp add: first_by_snoc)
  then show "build_inv (F @ [f]) s"
    using assms(1) by (simp add: build_inv_def)
qed


lemma build_inv_locs_image:
  assumes "build_inv F s"
  shows "Location_Address ` set (Ls s) = PC ` set (first_by PC F)"
proof -
  have "map Location_Address (Ls s) = map PC (first_by PC F)"
    using assms by (simp add: build_inv_def)
  then have "set (map Location_Address (Ls s)) = set (map PC (first_by PC F))"
    by (rule arg_cong)
  then show ?thesis by (simp only: set_map)
qed

lemma build_inv_unseen:
  assumes "build_inv F s" and "st_locs s (PC f) = None"
  shows "first_by PC (F @ [f]) = first_by PC F @ [f]"
proof -
  have "find (\<lambda>l. Location_Address l = PC f) (Ls s) = None"
    using assms by (simp add: build_inv_def)
  then have "PC f \<notin> Location_Address ` set (Ls s)"
    by (simp add: find_None_image)
  then have "PC f \<notin> PC ` set (first_by PC F)"
    using build_inv_locs_image [OF assms(1)] by simp
  then show ?thesis
    by (simp add: first_by_snoc)
qed

lemma build_inv_funcs_image:
  assumes "build_inv F s"
  shows "function_key ` set (Fs s) = frame_key ` set (first_by frame_key (first_by PC F))"
proof -
  have "function_key ` set (Fs s) = set (map function_key (Fs s))" by simp
  also have "\<dots> = set (map frame_key (first_by frame_key (first_by PC F)))"
    using assms by (simp add: build_inv_def)
  finally show ?thesis by simp
qed

lemma frame_step_old_function:
  assumes inv: "build_inv F s" and loc: "st_locs s (PC f) = None"
    and fn: "st_funcs s (File f @ Fn f) = Some fn"
  defines "loc \<equiv> \<lparr>Location_ID = of_nat (length (Ls s) + 1), Location_Address = PC f,
                    Location_Line = [\<lparr>Line_Function = fn, Line_Line = Line f\<rparr>]\<rparr>"
  defines "s' \<equiv> s\<lparr>st_p := (st_p s)\<lparr>Profile_Location := Ls s @ [loc]\<rparr>,
                    st_locs := (st_locs s)(PC f \<mapsto> loc)\<rparr>"
  shows "frame_step s sloc f = (s', sloc @ [loc])" and "build_inv (F @ [f]) s'"
proof -
  show "frame_step s sloc f = (s', sloc @ [loc])"
    using loc fn by (simp add: frame_step_def get_function_def s'_def loc_def Let_def)
  have fb: "first_by PC (F @ [f]) = first_by PC F @ [f]"
    by (rule build_inv_unseen [OF inv loc])
  have fnd: "find (\<lambda>g. function_key g = frame_key f) (Fs s) = Some fn"
    using inv fn by (simp add: build_inv_def frame_key_def)
  from find_Some_mem [OF fnd] have mem: "fn \<in> set (Fs s)" and key: "function_key fn = frame_key f"
    by simp_all
  then have "frame_key f \<in> function_key ` set (Fs s)" by force
  then have fk: "first_by frame_key (first_by PC F @ [f]) = first_by frame_key (first_by PC F)"
    by (simp add: build_inv_funcs_image [OF inv] first_by_snoc)
  have none: "find (\<lambda>l. Location_Address l = PC f) (Ls s) = None"
    using inv loc by (simp add: build_inv_def)
  have c1: "map Location_Address (Ls s') = map PC (first_by PC (F @ [f]))"
    using inv by (simp add: build_inv_def s'_def loc_def fb)
  have c2: "\<forall>pc. st_locs s' pc = find (\<lambda>l. Location_Address l = pc) (Ls s')"
    using inv none by (auto simp: build_inv_def s'_def loc_def find_snoc split: option.splits)
  have c3: "map function_key (Fs s') = map frame_key (first_by frame_key (first_by PC (F @ [f])))"
    using inv by (simp add: build_inv_def s'_def fb fk)
  have c4: "\<forall>k. st_funcs s' k = find (\<lambda>fn. function_key fn = k) (Fs s')"
    using inv by (simp add: build_inv_def s'_def)
  have c5: "map Location_ID (Ls s') = map of_nat [1..<length (Ls s') + 1]"
    using inv by (simp add: build_inv_def s'_def loc_def)
  have c6: "map Function_ID (Fs s') = map of_nat [1..<length (Fs s') + 1]"
    using inv by (simp add: build_inv_def s'_def)
  have c7: "\<forall>loc\<in>set (Ls s'). \<exists>fn\<in>set (Fs s'). \<exists>ln.
          Location_Line loc = [\<lparr>Line_Function = fn, Line_Line = ln\<rparr>]"
    using inv mem by (auto simp: build_inv_def s'_def loc_def)
  have c8: "\<forall>smp\<in>set (Profile_Sample (st_p s')). set (Sample_Location smp) \<subseteq> set (Ls s')"
    using inv by (auto simp: build_inv_def s'_def)
  show "build_inv (F @ [f]) s'"
    unfolding build_inv_def using c1 c2 c3 c4 c5 c6 c7 c8 by blast
qed

lemma frame_step_new_function:
  assumes inv: "build_inv F s" and loc: "st_locs s (PC f) = None"
    and fn: "st_funcs s (File f @ Fn f) = None"
  defines "fn \<equiv> \<lparr>Function_ID = of_nat (length (Fs s) + 1), Function_Name = Fn f,
                   Function_SystemName = Fn f, Function_Filename = File f\<rparr>"
  defines "loc \<equiv> \<lparr>Location_ID = of_nat (length (Ls s) + 1), Location_Address = PC f,
                    Location_Line = [\<lparr>Line_Function = fn, Line_Line = Line f\<rparr>]\<rparr>"
  defines "s' \<equiv> s\<lparr>st_p := (st_p s)\<lparr>Profile_Function := Fs s @ [fn],
                                     Profile_Location := Ls s @ [loc]\<rparr>,
                    st_funcs := (st_funcs s)(File f @ Fn f \<mapsto> fn),
                    st_locs := (st_locs s)(PC f \<mapsto> loc)\<rparr>"
  shows "frame_step s sloc f = (s', sloc @ [loc])" and "build_inv (F @ [f]) s'"
proof -
  show "frame_step s sloc f = (s', sloc @ [loc])"
    using loc fn by (simp add: frame_step_def get_function_def s'_def loc_def fn_def Let_def)
  have fb: "first_by PC (F @ [f]) = first_by PC F @ [f]"
    by (rule build_inv_unseen [OF inv loc])
  have fnone: "find (\<lambda>g. function_key g = frame_key f) (Fs s) = None"
    using inv fn by (simp add: build_inv_def frame_key_def)
  then have "frame_key f \<notin> function_key ` set (Fs s)"
    by (simp add: find_None_image)
  then have fk: "first_by frame_key (first_by PC F @ [f]) = first_by frame_key (first_by PC F) @ [f]"
    by (simp add: build_inv_funcs_image [OF inv] first_by_snoc)
  have none: "find (\<lambda>l. Location_Address l = PC f) (Ls s) = None"
    using inv loc by (simp add: build_inv_def)
  have key: "function_key fn = frame_key f"
    by (simp add: fn_def function_key_def frame_key_def)
  have c1: "map Location_Address (Ls s') = map PC (first_by PC (F @ [f]))"
    using inv by (simp add: build_inv_def s'_def loc_def fb)
  have c2: "\<forall>pc. st_locs s' pc = find (\<lambda>l. Location_Address l = pc) (Ls s')"
    using inv none by (auto simp: build_inv_def s'_def loc_def find_snoc split: option.splits)
  have c3: "map function_key (Fs s') = map frame_key (first_by frame_key (first_by PC (F @ [f])))"
    using inv key by (simp add: build_inv_def s'_def fb fk)
  have c4: "\<forall>k. st_funcs s' k = find (\<lambda>fn. function_key fn = k) (Fs s')"
    using inv fnone key
    by (auto simp: build_inv_def s'_def find_snoc frame_key_def split: option.splits)
  have c5: "map Location_ID (Ls s') = map of_nat [1..<length (Ls s') + 1]"
    using inv by (simp add: build_inv_def s'_def loc_def)
  have c6: "map Function_ID (Fs s') = map of_nat [1..<length (Fs s') + 1]"
    using inv by (simp add: build_inv_def s'_def fn_def)
  have c7: "\<forall>loc\<in>set (Ls s'). \<exists>fn\<in>set (Fs s'). \<exists>ln.
          Location_Line loc = [\<lparr>Line_Function = fn, Line_Line = ln\<rparr>]"
    using inv by (auto simp: build_inv_def s'_def loc_def)
  have c8: "\<forall>smp\<in>set (Profile_Sample (st_p s')). set (Sample_Location smp) \<subseteq> set (Ls s')"
    using inv by (auto simp: build_inv_def s'_def)
  show "build_inv (F @ [f]) s'"
    unfolding build_inv_def using c1 c2 c3 c4 c5 c6 c7 c8 by blast
qed


lemma frame_step_inv:
  assumes inv: "build_inv F s"
  shows "\<exists>s' loc. frame_step s sloc f = (s', sloc @ [loc]) \<and> build_inv (F @ [f]) s' \<and>
           Location_Address loc = PC f \<and> loc \<in> set (Ls s') \<and>
           (\<exists>more. Ls s' = Ls s @ more) \<and>
           Profile_Sample (st_p s') = Profile_Sample (st_p s)"
proof (cases "st_locs s (PC f)")
  case (Some loc)
  from frame_step_seen(1) [OF inv Some, of sloc] frame_step_seen(2-4) [OF inv Some]
  show ?thesis
    by (intro exI [of _ s] exI [of _ loc]) simp
next
  case None
  show ?thesis
  proof (cases "st_funcs s (File f @ Fn f)")
    case (Some fn)
    from frame_step_old_function(1) [OF inv None Some, of sloc]
      frame_step_old_function(2) [OF inv None Some]
    show ?thesis
      by (intro exI conjI) (assumption, assumption, simp_all)
  next
    case fnone: None
    from frame_step_new_function(1) [OF inv None fnone, of sloc]
      frame_step_new_function(2) [OF inv None fnone]
    show ?thesis
      by (intro exI conjI) (assumption, assumption, simp_all)
  qed
qed

lemma frames_loop_inv:
  assumes "build_inv F s"
  shows "\<exists>s' new. frames_loop s sloc fs = (s', sloc @ new) \<and> build_inv (F @ fs) s' \<and>
           map Location_Address new = map PC fs \<and> set new \<subseteq> set (Ls s') \<and>
           (\<exists>more. Ls s' = Ls s @ more) \<and>
           Profile_Sample (st_p s') = Profile_Sample (st_p s)"
  using assms
proof (induction fs arbitrary: s sloc F)
  case Nil
  then show ?case by simp
next
  case (Cons f fs)
  from frame_step_inv [OF Cons.prems, of sloc f]
  obtain s1 loc where step: "frame_step s sloc f = (s1, sloc @ [loc])"
    and inv1: "build_inv (F @ [f]) s1"
    and addr: "Location_Address loc = PC f" and mem: "loc \<in> set (Ls s1)"
    and grow1: "\<exists>more. Ls s1 = Ls s @ more"
    and smp1: "Profile_Sample (st_p s1) = Profile_Sample (st_p s)"
    by blast
  from Cons.IH [OF inv1, of "sloc @ [loc]"]
  obtain s' new where loop: "frames_loop s1 (sloc @ [loc]) fs = (s', (sloc @ [loc]) @ new)"
    and inv': "build_inv ((F @ [f]) @ fs) s'"
    and addrs: "map Location_Address new = map PC fs" and sub: "set new \<subseteq> set (Ls s')"
    and grow2: "\<exists>more. Ls s' = Ls s1 @ more"
    and smp2: "Profile_Sample (st_p s') = Profile_Sample (st_p s1)"
    by blast
  from grow1 grow2 have grow: "\<exists>more. Ls s' = Ls s @ more" by auto
  from grow2 mem have mem': "loc \<in> set (Ls s')" by auto
  have "frames_loop s sloc (f # fs) = (s', sloc @ (loc # new))"
    using step loop by simp
  moreover have "build_inv (F @ f # fs) s'" using inv' by simp
  moreover have "map Location_Address (loc # new) = map PC (f # fs)"
    using addr addrs by simp
  moreover have "set (loc # new) \<subseteq> set (Ls s')" using mem' sub by simp
  moreover have "Profile_Sample (st_p s') = Profile_Sample (st_p s)" using smp1 smp2 by simp
  ultimately show ?case using grow by blast
qed

lemma record_step_inv:
  assumes inv: "build_inv F s"
  shows "\<exists>sloc. build_inv (F @ stk rec) (record_step s rec) \<and>
           Profile_Sample (st_p (record_step s rec)) =
             Profile_Sample (st_p s) @ [\<lparr>Sample_Value = [n rec, time rec], Sample_Location = sloc\<rparr>] \<and>
           map Location_Address sloc = map PC (stk rec)"
proof -
  from frames_loop_inv [OF inv, of "[]" "stk rec"]
  obtain s1 sloc where loop: "frames_loop s [] (stk rec) = (s1, sloc)"
    and inv1: "build_inv (F @ stk rec) s1"
    and addrs: "map Location_Address sloc = map PC (stk rec)"
    and sub: "set sloc \<subseteq> set (Ls s1)"
    and smp: "Profile_Sample (st_p s1) = Profile_Sample (st_p s)"
    by auto
  define s2 where "s2 = s1\<lparr>st_p := (st_p s1)\<lparr>Profile_Sample := Profile_Sample (st_p s1) @
                 [\<lparr>Sample_Value = [n rec, time rec], Sample_Location = sloc\<rparr>]\<rparr>\<rparr>"
  have eq: "record_step s rec = s2"
    using loop by (simp add: record_step_def s2_def)
  have ls: "Ls s2 = Ls s1" and fs: "Fs s2 = Fs s1"
    and locs: "st_locs s2 = st_locs s1" and funcs: "st_funcs s2 = st_funcs s1"
    by (simp_all add: s2_def)
  have smp2: "Profile_Sample (st_p s2) =
      Profile_Sample (st_p s) @ [\<lparr>Sample_Value = [n rec, time rec], Sample_Location = sloc\<rparr>]"
    by (simp add: s2_def smp)
  have old: "\<forall>smp\<in>set (Profile_Sample (st_p s1)). set (Sample_Location smp) \<subseteq> set (Ls s1)"
    using inv1 by (simp add: build_inv_def)
  have new: "\<forall>smp\<in>set (Profile_Sample (st_p s2)). set (Sample_Location smp) \<subseteq> set (Ls s2)"
    using old sub by (auto simp: s2_def)
  have "build_inv (F @ stk rec) s2"
    using inv1 new unfolding build_inv_def ls fs locs funcs by blast
  then show ?thesis
    using eq smp2 addrs by blast
qed

lemma frames_of_snoc: "frames_of (recs @ [r]) = frames_of recs @ stk r"
  by (simp add: frames_of_def)

lemma foldl_record_step:
  "build_inv (frames_of recs) (foldl record_step init_state recs) \<and>
   map Sample_Value (Profile_Sample (st_p (foldl record_step init_state recs))) =
     map (\<lambda>r. [n r, time r]) recs \<and>
   map (\<lambda>smp. map Location_Address (Sample_Location smp))
       (Profile_Sample (st_p (foldl record_step init_state recs))) =
     map (\<lambda>r. map PC (stk r)) recs"
proof (induction recs rule: rev_induct)
  case Nil
  then show ?case
    using build_inv_init by (simp add: frames_of_def init_state_def)
next
  case (snoc r recs)
  let ?s = "foldl record_step init_state recs"
  from snoc have inv: "build_inv (frames_of recs) ?s" by simp
  from record_step_inv [OF inv, of r]
  obtain sloc where inv': "build_inv (frames_of recs @ stk r) (record_step ?s r)"
    and smp: "Profile_Sample (st_p (record_step ?s r)) =
      Profile_Sample (st_p ?s) @ [\<lparr>Sample_Value = [n r, time r], Sample_Location = sloc\<rparr>]"
    and addrs: "map Location_Address sloc = map PC (stk r)"
    by blast
  show ?case
    using snoc inv' smp addrs by (simp add: frames_of_snoc)
qed

lemma count_list_distinct:
  "distinct xs \<Longrightarrow> x \<in> set xs \<Longrightarrow> count_list xs x = 1"
  by (induction xs) auto

lemma distinct_of_map: "distinct (map f xs) \<Longrightarrow> distinct xs"
  by (simp add: distinct_map)

lemma build_inv_distinct_Ls:
  assumes "build_inv F s"
  shows "distinct (map Location_Address (Ls s))"
proof -
  have "map Location_Address (Ls s) = map PC (first_by PC F)"
    using assms by (simp add: build_inv_def)
  then show ?thesis by (simp only: distinct_first_by)
qed

lemma build_inv_distinct_Fs:
  assumes "build_inv F s"
  shows "distinct (map function_key (Fs s))"
proof -
  have "map function_key (Fs s) = map frame_key (first_by frame_key (first_by PC F))"
    using assms by (simp add: build_inv_def)
  then show ?thesis by (simp only: distinct_first_by)
qed

lemma build_inv_length_Ls:
  assumes "build_inv F s"
  shows "length (Ls s) = card (PC ` set F)"
proof -
  have "map Location_Address (Ls s) = map PC (first_by PC F)"
    using assms by (simp add: build_inv_def)
  then have "length (map Location_Address (Ls s)) = length (map PC (first_by PC F))"
    by (rule arg_cong)
  then show ?thesis by (simp add: length_first_by)
qed

lemma build_inv_length_Fs:
  assumes "build_inv F s"
  shows "length (Fs s) = card (frame_key ` set (first_by PC F))"
proof -
  have "map function_key (Fs s) = map frame_key (first_by frame_key (first_by PC F))"
    using assms by (simp add: build_inv_def)
  then have "length (map function_key (Fs s)) =
      length (map frame_key (first_by frame_key (first_by PC F)))"
    by (rule arg_cong)
  then show ?thesis by (simp add: length_first_by)
qed

lemma buildProfile_inv:
  "build_inv (frames_of (range_records ks prof))
     (foldl record_step init_state (range_records ks prof))"
  using foldl_record_step [of "range_records ks prof"] by blast

lemma buildProfile_st_p:
  "buildProfile ks prof = st_p (foldl record_step init_state (range_records ks prof))"
  by (simp add: buildProfile_def buildProfile_records_def)

lemma set_range_records:
  assumes "iteration_order ks prof"
  shows "set (range_records ks prof) = ran prof"
proof -
  have "set (range_records ks prof) = {r. \<exists>k\<in>set ks. prof k = Some r}"
    by (auto simp: range_records_def split: option.splits)
  also have "\<dots> = ran prof"
    using assms by (auto simp: iteration_order_def ran_def)
  finally show ?thesis .
qed

lemma set_frames_of_range:
  assumes "iteration_order ks prof"
  shows "set (frames_of (range_records ks prof)) = all_frames prof"
  by (simp add: frames_of_def all_frames_def set_range_records [OF assms])

lemma card_keys_le_pairs:
  assumes "finite A"
  shows "card (frame_key ` A) \<le> card ((\<lambda>f. (File f, Fn f)) ` A)"
proof -
  have "frame_key ` A = (\<lambda>(a, b). a @ b) ` ((\<lambda>f. (File f, Fn f)) ` A)"
    by (auto simp: frame_key_def image_image)
  then show ?thesis
    using assms by (simp add: card_image_le)
qed

lemma card_keys_eq_pairs:
  assumes "\<forall>f\<in>A. \<forall>g\<in>A. File f @ Fn f = File g @ Fn g \<longrightarrow> File f = File g \<and> Fn f = Fn g"
  shows "card (frame_key ` A) = card ((\<lambda>f. (File f, Fn f)) ` A)"
proof -
  have eq: "frame_key ` A = (\<lambda>(a, b). a @ b) ` ((\<lambda>f. (File f, Fn f)) ` A)"
    by (auto simp: frame_key_def image_image)
  have "inj_on (\<lambda>(a, b). a @ b) ((\<lambda>f. (File f, Fn f)) ` A)"
    using assms by (auto simp: inj_on_def)
  then show ?thesis
    unfolding eq by (rule card_image)
qed

lemma keys_of_first_by_PC:
  assumes "\<forall>f\<in>set F. \<forall>g\<in>set F. PC f = PC g \<longrightarrow> File f = File g \<and> Fn f = Fn g"
  shows "frame_key ` set (first_by PC F) = frame_key ` set F"
proof
  show "frame_key ` set (first_by PC F) \<subseteq> frame_key ` set F"
    using set_first_by [of PC F] by blast
  show "frame_key ` set F \<subseteq> frame_key ` set (first_by PC F)"
  proof
    fix k assume "k \<in> frame_key ` set F"
    then obtain f where f: "f \<in> set F" and k: "k = frame_key f" by blast
    from f have "PC f \<in> PC ` set (first_by PC F)" by (simp add: image_first_by)
    then obtain g where g: "g \<in> set (first_by PC F)" and pc: "PC f = PC g" by blast
    from g set_first_by [of PC F] have "g \<in> set F" by blast
    with assms f pc have "File f = File g \<and> Fn f = Fn g" by blast
    then have "frame_key g = k" by (simp add: k frame_key_def)
    with g show "k \<in> frame_key ` set (first_by PC F)" by blast
  qed
qed

lemma unat_of_nat_64: "k < 2 ^ 64 \<Longrightarrow> unat (of_nat k :: 64 word) = k"
  by (simp add: unat_of_nat)

subsection \<open>The concrete record maps\<close>

lemma iteration_order_prof_fh: "iteration_order [9, 7] prof_fh"
  by (auto simp: iteration_order_def prof_fh_def)

lemma iteration_order_prof_fg: "iteration_order [7] prof_fg"
  by (auto simp: iteration_order_def prof_fg_def)

lemma all_frames_prof_fh: "all_frames prof_fh = {frame_f, frame_h}"
  by (auto simp: all_frames_def prof_fh_def ran_def)

lemma all_frames_prof_fg: "all_frames prof_fg = {frame_f, frame_g}"
  by (auto simp: all_frames_def prof_fg_def ran_def)

lemma buildProfile_prof_fg:
  "Profile_Function (buildProfile [7] prof_fg) =
     [\<lparr>Function_ID = 1, Function_Name = ''main.f'', Function_SystemName = ''main.f'',
       Function_Filename = ''a.go''\<rparr>]"
  by (simp add: buildProfile_def buildProfile_records_def range_records_def prof_fg_def
      record_step_def frame_step_def get_function_def init_state_def frame_f_def frame_g_def
      Let_def)

lemma buildProfile_prof_fh:
  "Profile_Sample (buildProfile [9, 7] prof_fh) = [smp_h, smp_f]"
  "Profile_Location (buildProfile [9, 7] prof_fh) = [loc_h, loc_f]"
  "Profile_Function (buildProfile [9, 7] prof_fh) = [fn_h, fn_f]"
  by (simp_all add: buildProfile_def buildProfile_records_def range_records_def prof_fh_def
      record_step_def frame_step_def get_function_def init_state_def frame_f_def frame_h_def
      Let_def smp_h_def smp_f_def loc_h_def loc_f_def fn_h_def fn_f_def)

lemma range_records_prof_fh:
  "range_records [9, 7] prof_fh =
     [\<lparr>stk = [frame_h], n = 1, time = 10\<rparr>, \<lparr>stk = [frame_f, frame_h, frame_f], n = 2, time = 250\<rparr>]"
  by (simp add: range_records_def prof_fh_def)

lemma build_inv_Location_ID:
  assumes "build_inv F s" and "i < length (Ls s)"
  shows "Location_ID (Ls s ! i) = of_nat (i + 1)"
proof -
  have "map Location_ID (Ls s) = map of_nat [1..<length (Ls s) + 1]"
    using assms(1) by (simp add: build_inv_def)
  then have "map Location_ID (Ls s) ! i = map of_nat [1..<length (Ls s) + 1] ! i"
    by (rule arg_cong)
  then show ?thesis using assms(2) by (simp del: upt_Suc)
qed

lemma build_inv_Function_ID:
  assumes "build_inv F s" and "i < length (Fs s)"
  shows "Function_ID (Fs s ! i) = of_nat (i + 1)"
proof -
  have "map Function_ID (Fs s) = map of_nat [1..<length (Fs s) + 1]"
    using assms(1) by (simp add: build_inv_def)
  then have "map Function_ID (Fs s) ! i = map of_nat [1..<length (Fs s) + 1] ! i"
    by (rule arg_cong)
  then show ?thesis using assms(2) by (simp del: upt_Suc)
qed

lemma build_inv_sample_locations:
  assumes "build_inv F s" and "smp \<in> set (Profile_Sample (st_p s))"
    and "l \<in> set (Sample_Location smp)"
  shows "l \<in> set (Ls s)"
  using assms unfolding build_inv_def by blast

lemma build_inv_line_function:
  assumes "build_inv F s" and "l \<in> set (Ls s)" and "ln \<in> set (Location_Line l)"
  shows "Line_Function ln \<in> set (Fs s)"
proof -
  from assms(1,2) obtain fn k where "fn \<in> set (Fs s)"
    and "Location_Line l = [\<lparr>Line_Function = fn, Line_Line = k\<rparr>]"
    unfolding build_inv_def by blast
  with assms(3) show ?thesis by auto
qed

lemma buildProfile_Sample_Value:
  "map Sample_Value (Profile_Sample (buildProfile ks prof)) =
     map (\<lambda>r. [n r, time r]) (range_records ks prof)"
  using foldl_record_step [of "range_records ks prof"] by (simp add: buildProfile_st_p)

section \<open>What the goroutine filter returns\<close>

lemma foldl_matching_step:
  "foldl (matching_step pc) res gs =
     (if matching_ids pc gs = {} then res
      else Some (\<lambda>k. if k \<in> matching_ids pc gs then Some True
                       else (case res of None \<Rightarrow> None | Some m \<Rightarrow> m k)))"
proof (induction gs arbitrary: res)
  case Nil
  then show ?case by (simp add: matching_ids_def)
next
  case (Cons g gs)
  show ?case
  proof (cases "GDesc_PC g = pc")
    case False
    then have "matching_ids pc (g # gs) = matching_ids pc gs"
      by (auto simp: matching_ids_def)
    with False Cons show ?thesis by (simp add: matching_step_def)
  next
    case True
    then have ids: "matching_ids pc (g # gs) = insert (GDesc_ID g) (matching_ids pc gs)"
      by (auto simp: matching_ids_def)
    from True have step: "matching_step pc res g =
        Some ((case res of None \<Rightarrow> Map.empty | Some m \<Rightarrow> m)(GDesc_ID g \<mapsto> True))"
      by (cases res) (simp_all add: matching_step_def)
    show ?thesis
      unfolding foldl_Cons step Cons.IH ids
      by (cases res) (auto simp: fun_eq_iff)
  qed
qed

lemma foldl_matching_step_None:
  "foldl (matching_step pc) None gs =
     (if matching_ids pc gs = {} then None else Some (true_on (matching_ids pc gs)))"
  by (auto simp: foldl_matching_step true_on_def fun_eq_iff)

lemma dom_true_on: "dom (true_on ids) = ids"
  by (auto simp: true_on_def dom_def)

lemma finite_matching_ids: "finite (matching_ids pc gs)"
  by (simp add: matching_ids_def)

lemma len_map_foldl:
  "len_map (foldl (matching_step pc) None gs) = 0 \<longleftrightarrow> matching_ids pc gs = {}"
  by (simp add: foldl_matching_step_None len_map_def dom_true_on finite_matching_ids)

lemma pprofMatchingGoroutines_eq:
  "pprofMatchingGoroutines ParseUint analyzeGoroutines id_str events =
     (if id_str = [] then (None, None)
      else case ParseUint id_str of
             None \<Rightarrow> (None, Some (InvalidGoroutineType id_str))
           | Some pc \<Rightarrow>
               if matching_ids pc (analyzeGoroutines events) = {}
               then (None, Some (NoMatchingGoroutines id_str))
               else (Some (true_on (matching_ids pc (analyzeGoroutines events))), None))"
  by (simp add: pprofMatchingGoroutines_def Let_def foldl_matching_step_None len_map_def
      dom_true_on finite_matching_ids split: option.splits)

lemma ParseUint10_7: "ParseUint10 ''7'' = Some 7" "ParseUint10 ''999'' = Some 999"
  "ParseUint10 ''notanumber'' = None"
  by (simp_all add: ParseUint10_def)

lemma matching_ids_example: "matching_ids 7 gs_example = {1, 3}" "matching_ids 999 gs_example = {}"
  by (simp_all add: matching_ids_def gs_example_def insert_commute)

section \<open>The files after a request\<close>


section \<open>The claims about the aggregation\<close>

text \<open>
  C1. An event whose link is nil, whose stack identifier is zero or whose stack is empty
  never contributes to a Record, in any of the four profiles: the loop body leaves the map
  as it is (no Record is made, no count and no duration changes), and the map after a whole
  event sequence is the same with the event and without it. This holds for every goroutine
  filter.
\<close>

theorem unstructured_event_never_contributes:
  assumes "Link ev = None \<or> StkID ev = 0 \<or> Stk ev = []"
  shows "(pprofIO_step goroutines prof ev = prof \<and>
          pprofBlock_step goroutines prof ev = prof \<and>
          pprofSyscall_step goroutines prof ev = prof \<and>
          pprofSched_step goroutines prof ev = prof) \<and>
         (pprofIO_prof goroutines (xs @ ev # ys) = pprofIO_prof goroutines (xs @ ys) \<and>
          pprofBlock_prof goroutines (xs @ ev # ys) = pprofBlock_prof goroutines (xs @ ys) \<and>
          pprofSyscall_prof goroutines (xs @ ev # ys) = pprofSyscall_prof goroutines (xs @ ys) \<and>
          pprofSched_prof goroutines (xs @ ev # ys) = pprofSched_prof goroutines (xs @ ys))"
proof -
  have nq: "\<not> qualifies c goroutines ev" for c
    using assms by (rule not_structural_not_qualifies)
  have step: "pprof_step c goroutines prof ev = prof" for c
    using nq [of c] by (simp add: pprof_step_eq)
  have loop: "pprof_prof c goroutines (xs @ ev # ys) = pprof_prof c goroutines (xs @ ys)" for c
    using nq [of c] by (rule pprof_prof_skip)
  show ?thesis
    using step [of IO] step [of Block] step [of Syscall] step [of Sched]
      loop [of IO] loop [of Block] loop [of Syscall] loop [of Sched]
    by (simp only: pprof_step_simps pprof_prof_simps simp_thms)
qed

theorem unstructured_event_never_contributes_witness:
  "Link ev_nolink = None \<and>
   pprofIO_step None Map.empty ev_nolink = Map.empty \<and>
   pprofIO_prof None ([ev_100] @ ev_nolink # [ev_150]) = pprofIO_prof None ([ev_100] @ [ev_150])"
proof -
  have h: "Link ev_nolink = None \<or> StkID ev_nolink = 0 \<or> Stk ev_nolink = []"
    by (simp add: ev_nolink_def)
  have l: "Link ev_nolink = None"
    by (simp add: ev_nolink_def)
  from unstructured_event_never_contributes [OF h, of None Map.empty "[ev_100]" "[ev_150]"] l
  show ?thesis by blast
qed




text \<open>
  C7. Permuting the event sequence does not change the multiset of (stack identifier,
  occurrence count, cumulative duration) triples that the aggregation yields, in each of
  the four profiles and for every goroutine filter.
\<close>

theorem aggregation_order_independent:
  assumes "mset events' = mset events"
  shows "triples (pprofIO_prof goroutines events') = triples (pprofIO_prof goroutines events) \<and>
         triples (pprofBlock_prof goroutines events') = triples (pprofBlock_prof goroutines events) \<and>
         triples (pprofSyscall_prof goroutines events') =
           triples (pprofSyscall_prof goroutines events) \<and>
         triples (pprofSched_prof goroutines events') = triples (pprofSched_prof goroutines events)"
proof -
  have "triples (pprof_prof c goroutines events') = triples (pprof_prof c goroutines events)" for c
    unfolding pprof_prof_aggregate
    by (rule triples_cong) (rule aggregate_perm [OF assms])
  from this [of IO] this [of Block] this [of Syscall] this [of Sched]
  show ?thesis by (simp only: pprof_prof_simps simp_thms)
qed

theorem aggregation_order_independent_witness:
  "mset [ev_150, ev_nolink, ev_100] = mset [ev_100, ev_nolink, ev_150] \<and>
   triples (pprofIO_prof None [ev_150, ev_nolink, ev_100]) =
     triples (pprofIO_prof None [ev_100, ev_nolink, ev_150])"
proof -
  have h: "mset [ev_150, ev_nolink, ev_100] = mset [ev_100, ev_nolink, ev_150]"
    by (simp add: add_mset_commute)
  from aggregation_order_independent [OF h, of None] h show ?thesis by blast
qed

section \<open>The claims about the profile builder\<close>

text \<open>
  C3 as stated fails: the number of Function entries is not always the number of distinct
  (file, function name) pairs. A frame whose program counter was seen before makes no
  Function, whatever its file and name: the record with the frames \<open>frame_f\<close> and
  \<open>frame_g\<close>, which share program counter 1 and differ in the function name, gives one
  Function for two pairs.
\<close>

theorem function_count_counterexample:
  "iteration_order [7] prof_fg \<and>
   length (Profile_Function (buildProfile [7] prof_fg)) \<noteq>
     card ((\<lambda>f. (File f, Fn f)) ` all_frames prof_fg)"
proof -
  have "card ((\<lambda>f. (File f, Fn f)) ` all_frames prof_fg) = 2"
    by (simp add: all_frames_prof_fg frame_f_def frame_g_def)
  then show ?thesis
    by (simp add: iteration_order_prof_fg buildProfile_prof_fg)
qed

text \<open>
  C3, amended. For every record map and every order in which the loop visits it, the number
  of Location entries is the number of distinct program counters among the frames of the
  record stacks. The number of Function entries is at most the number of distinct
  (file, function name) pairs among those frames, and equal to it when frames with the same
  program counter have the same file and function name and no two different pairs have the
  same concatenation \<^verbatim>\<open>File+Fn\<close>.
\<close>

theorem location_and_function_counts:
  assumes "iteration_order ks prof"
  shows "length (Profile_Location (buildProfile ks prof)) = card (PC ` all_frames prof) \<and>
         length (Profile_Function (buildProfile ks prof)) \<le>
           card ((\<lambda>f. (File f, Fn f)) ` all_frames prof) \<and>
         ((\<forall>f\<in>all_frames prof. \<forall>g\<in>all_frames prof.
             (PC f = PC g \<longrightarrow> File f = File g \<and> Fn f = Fn g) \<and>
             (File f @ Fn f = File g @ Fn g \<longrightarrow> File f = File g \<and> Fn f = Fn g)) \<longrightarrow>
          length (Profile_Function (buildProfile ks prof)) =
            card ((\<lambda>f. (File f, Fn f)) ` all_frames prof))"
proof -
  let ?F = "frames_of (range_records ks prof)"
  let ?s = "foldl record_step init_state (range_records ks prof)"
  have inv: "build_inv ?F ?s" by (rule buildProfile_inv)
  have frames: "set ?F = all_frames prof" by (rule set_frames_of_range [OF assms])
  have fin: "finite (all_frames prof)" by (simp flip: frames)
  have locs: "length (Ls ?s) = card (PC ` all_frames prof)"
    using build_inv_length_Ls [OF inv] by (simp only: frames)
  have fns: "length (Fs ?s) = card (frame_key ` set (first_by PC ?F))"
    by (rule build_inv_length_Fs [OF inv])
  have "frame_key ` set (first_by PC ?F) \<subseteq> frame_key ` all_frames prof"
    using set_first_by [of PC ?F] frames by blast
  then have "card (frame_key ` set (first_by PC ?F)) \<le> card (frame_key ` all_frames prof)"
    using fin by (simp add: card_mono)
  also have "\<dots> \<le> card ((\<lambda>f. (File f, Fn f)) ` all_frames prof)"
    by (rule card_keys_le_pairs [OF fin])
  finally have le: "length (Fs ?s) \<le> card ((\<lambda>f. (File f, Fn f)) ` all_frames prof)"
    by (simp only: fns)
  have eq: "length (Fs ?s) = card ((\<lambda>f. (File f, Fn f)) ` all_frames prof)"
    if h: "\<forall>f\<in>all_frames prof. \<forall>g\<in>all_frames prof.
             (PC f = PC g \<longrightarrow> File f = File g \<and> Fn f = Fn g) \<and>
             (File f @ Fn f = File g @ Fn g \<longrightarrow> File f = File g \<and> Fn f = Fn g)"
  proof -
    from h have h1: "\<forall>f\<in>set ?F. \<forall>g\<in>set ?F. PC f = PC g \<longrightarrow> File f = File g \<and> Fn f = Fn g"
      unfolding frames by blast
    from h have h2: "\<forall>f\<in>all_frames prof. \<forall>g\<in>all_frames prof.
        File f @ Fn f = File g @ Fn g \<longrightarrow> File f = File g \<and> Fn f = Fn g"
      by blast
    have "length (Fs ?s) = card (frame_key ` set ?F)"
      by (simp only: fns keys_of_first_by_PC [OF h1])
    also have "\<dots> = card (frame_key ` all_frames prof)" by (simp only: frames)
    also have "\<dots> = card ((\<lambda>f. (File f, Fn f)) ` all_frames prof)"
      by (rule card_keys_eq_pairs [OF h2])
    finally show ?thesis .
  qed
  show ?thesis
    unfolding buildProfile_st_p using locs le eq by blast
qed

theorem location_and_function_counts_witness:
  "iteration_order [9, 7] prof_fh \<and>
   length (Profile_Location (buildProfile [9, 7] prof_fh)) = card (PC ` all_frames prof_fh) \<and>
   length (Profile_Function (buildProfile [9, 7] prof_fh)) =
     card ((\<lambda>f. (File f, Fn f)) ` all_frames prof_fh)"
proof -
  have h: "\<forall>f\<in>all_frames prof_fh. \<forall>g\<in>all_frames prof_fh.
             (PC f = PC g \<longrightarrow> File f = File g \<and> Fn f = Fn g) \<and>
             (File f @ Fn f = File g @ Fn g \<longrightarrow> File f = File g \<and> Fn f = Fn g)"
    by (simp add: all_frames_prof_fh frame_f_def frame_h_def)
  from location_and_function_counts [OF iteration_order_prof_fh] h iteration_order_prof_fh
  show ?thesis by blast
qed

text \<open>
  C5. In the Profile that the builder returns, for every record map and every order of the
  loop: every Location that a Sample names occurs exactly once in the Location list, every
  Function that a Location names occurs exactly once in the Function list, the entry at
  position \<open>i\<close> (from 0) of either list has the ID \<open>i + 1\<close> (as a \<^verbatim>\<open>uint64\<close>, and as a
  number while the list is shorter than \<open>2 ^ 64\<close>), and the lists are in first-seen order:
  the Locations in the order in which their program counters first occur among the frames
  visited, the Functions in the order in which their keys first occur among the frames that
  made a Location.
\<close>

theorem profile_references_and_ids:
  fixes ks :: "u64 list" and prof :: "u64 \<rightharpoonup> Record"
  defines "P \<equiv> buildProfile ks prof"
  shows "(\<forall>smp\<in>set (Profile_Sample P). \<forall>l\<in>set (Sample_Location smp).
            count_list (Profile_Location P) l = 1) \<and>
         (\<forall>l\<in>set (Profile_Location P). \<forall>ln\<in>set (Location_Line l).
            count_list (Profile_Function P) (Line_Function ln) = 1) \<and>
         (\<forall>i<length (Profile_Location P).
            Location_ID (Profile_Location P ! i) = of_nat (i + 1) \<and>
            (length (Profile_Location P) < 2 ^ 64 \<longrightarrow>
               unat (Location_ID (Profile_Location P ! i)) = i + 1)) \<and>
         (\<forall>i<length (Profile_Function P).
            Function_ID (Profile_Function P ! i) = of_nat (i + 1) \<and>
            (length (Profile_Function P) < 2 ^ 64 \<longrightarrow>
               unat (Function_ID (Profile_Function P ! i)) = i + 1)) \<and>
         map Location_Address (Profile_Location P) =
           map PC (first_by PC (frames_of (range_records ks prof))) \<and>
         map function_key (Profile_Function P) =
           map frame_key (first_by frame_key (first_by PC (frames_of (range_records ks prof))))"
proof -
  let ?F = "frames_of (range_records ks prof)"
  let ?s = "foldl record_step init_state (range_records ks prof)"
  have inv: "build_inv ?F ?s" by (rule buildProfile_inv)
  have P: "P = st_p ?s" by (simp add: P_def buildProfile_st_p)
  have dl: "distinct (Ls ?s)"
    using build_inv_distinct_Ls [OF inv] by (rule distinct_of_map)
  have df: "distinct (Fs ?s)"
    using build_inv_distinct_Fs [OF inv] by (rule distinct_of_map)
  have c1: "\<forall>smp\<in>set (Profile_Sample P). \<forall>l\<in>set (Sample_Location smp).
            count_list (Profile_Location P) l = 1"
    unfolding P using build_inv_sample_locations [OF inv] count_list_distinct [OF dl] by blast
  have c2: "\<forall>l\<in>set (Profile_Location P). \<forall>ln\<in>set (Location_Line l).
            count_list (Profile_Function P) (Line_Function ln) = 1"
    unfolding P using build_inv_line_function [OF inv] count_list_distinct [OF df] by blast
  have c3: "\<forall>i<length (Profile_Location P).
            Location_ID (Profile_Location P ! i) = of_nat (i + 1) \<and>
            (length (Profile_Location P) < 2 ^ 64 \<longrightarrow>
               unat (Location_ID (Profile_Location P ! i)) = i + 1)"
    unfolding P
  proof (intro allI impI conjI)
    fix i assume i: "i < length (Ls ?s)"
    show "Location_ID (Ls ?s ! i) = of_nat (i + 1)"
      by (rule build_inv_Location_ID [OF inv i])
  next
    fix i assume i: "i < length (Ls ?s)" and len: "length (Ls ?s) < 2 ^ 64"
    have "i + 1 < 2 ^ 64" using i len by simp
    then have "unat (of_nat (i + 1) :: 64 word) = i + 1" by (rule unat_of_nat_64)
    then show "unat (Location_ID (Ls ?s ! i)) = i + 1"
      by (simp only: build_inv_Location_ID [OF inv i])
  qed
  have c4: "\<forall>i<length (Profile_Function P).
            Function_ID (Profile_Function P ! i) = of_nat (i + 1) \<and>
            (length (Profile_Function P) < 2 ^ 64 \<longrightarrow>
               unat (Function_ID (Profile_Function P ! i)) = i + 1)"
    unfolding P
  proof (intro allI impI conjI)
    fix i assume i: "i < length (Fs ?s)"
    show "Function_ID (Fs ?s ! i) = of_nat (i + 1)"
      by (rule build_inv_Function_ID [OF inv i])
  next
    fix i assume i: "i < length (Fs ?s)" and len: "length (Fs ?s) < 2 ^ 64"
    have "i + 1 < 2 ^ 64" using i len by simp
    then have "unat (of_nat (i + 1) :: 64 word) = i + 1" by (rule unat_of_nat_64)
    then show "unat (Function_ID (Fs ?s ! i)) = i + 1"
      by (simp only: build_inv_Function_ID [OF inv i])
  qed
  have c5: "map Location_Address (Profile_Location P) = map PC (first_by PC ?F)"
    unfolding P using inv by (simp add: build_inv_def)
  have c6: "map function_key (Profile_Function P) =
      map frame_key (first_by frame_key (first_by PC ?F))"
    unfolding P using inv by (simp add: build_inv_def)
  from c1 c2 c3 c4 c5 c6 show ?thesis by blast
qed

theorem profile_references_and_ids_witness:
  "smp_f \<in> set (Profile_Sample (buildProfile [9, 7] prof_fh)) \<and>
   loc_f \<in> set (Sample_Location smp_f) \<and>
   count_list (Profile_Location (buildProfile [9, 7] prof_fh)) loc_f = 1 \<and>
   Location_ID (Profile_Location (buildProfile [9, 7] prof_fh) ! 1) = of_nat (1 + 1)"
proof -
  have a: "smp_f \<in> set (Profile_Sample (buildProfile [9, 7] prof_fh))"
    by (simp add: buildProfile_prof_fh)
  have b: "loc_f \<in> set (Sample_Location smp_f)"
    by (simp add: smp_f_def)
  have c: "1 < length (Profile_Location (buildProfile [9, 7] prof_fh))"
    by (simp add: buildProfile_prof_fh)
  from profile_references_and_ids [of "[9, 7]" prof_fh] a b c show ?thesis by blast
qed

text \<open>
  C9. For every record map and every order of the loop, the Samples are, record by record in
  the order visited: the value list is exactly the occurrence count followed by the
  cumulative duration, and the Location list has one entry per frame of the record's
  stack, in the order of the frames, the entry of a frame having the frame's program
  counter as address. Two entries with the same address, in the same or in different
  Samples, are the same Location.
\<close>

theorem samples_follow_records:
  fixes ks :: "u64 list" and prof :: "u64 \<rightharpoonup> Record"
  defines "P \<equiv> buildProfile ks prof"
  shows "map Sample_Value (Profile_Sample P) =
           map (\<lambda>r. [n r, time r]) (range_records ks prof) \<and>
         map (\<lambda>smp. map Location_Address (Sample_Location smp)) (Profile_Sample P) =
           map (\<lambda>r. map PC (stk r)) (range_records ks prof) \<and>
         (\<forall>smp\<in>set (Profile_Sample P). \<forall>smp'\<in>set (Profile_Sample P).
            \<forall>l\<in>set (Sample_Location smp). \<forall>l'\<in>set (Sample_Location smp').
              Location_Address l = Location_Address l' \<longrightarrow> l = l')"
proof -
  let ?F = "frames_of (range_records ks prof)"
  let ?s = "foldl record_step init_state (range_records ks prof)"
  have inv: "build_inv ?F ?s" by (rule buildProfile_inv)
  have P: "P = st_p ?s" by (simp add: P_def buildProfile_st_p)
  have inj: "inj_on Location_Address (set (Ls ?s))"
    using build_inv_distinct_Ls [OF inv] by (simp add: distinct_map)
  have c3: "\<forall>smp\<in>set (Profile_Sample P). \<forall>smp'\<in>set (Profile_Sample P).
            \<forall>l\<in>set (Sample_Location smp). \<forall>l'\<in>set (Sample_Location smp').
              Location_Address l = Location_Address l' \<longrightarrow> l = l'"
    unfolding P using build_inv_sample_locations [OF inv] inj_onD [OF inj] by blast
  from foldl_record_step [of "range_records ks prof"] c3 show ?thesis
    unfolding P by blast
qed

theorem samples_follow_records_witness:
  "smp_h \<in> set (Profile_Sample (buildProfile [9, 7] prof_fh)) \<and>
   smp_f \<in> set (Profile_Sample (buildProfile [9, 7] prof_fh)) \<and>
   loc_h \<in> set (Sample_Location smp_h) \<and>
   Sample_Location smp_f ! 1 \<in> set (Sample_Location smp_f) \<and>
   Location_Address loc_h = Location_Address (Sample_Location smp_f ! 1) \<and>
   loc_h = Sample_Location smp_f ! 1 \<and>
   map Sample_Value (Profile_Sample (buildProfile [9, 7] prof_fh)) =
     map (\<lambda>r. [n r, time r]) (range_records [9, 7] prof_fh)"
proof -
  have a: "smp_h \<in> set (Profile_Sample (buildProfile [9, 7] prof_fh))"
    and b: "smp_f \<in> set (Profile_Sample (buildProfile [9, 7] prof_fh))"
    by (simp_all add: buildProfile_prof_fh)
  have c: "loc_h \<in> set (Sample_Location smp_h)"
    by (simp add: smp_h_def)
  have d: "Sample_Location smp_f ! 1 \<in> set (Sample_Location smp_f)"
    by (simp add: smp_f_def)
  have e: "Location_Address loc_h = Location_Address (Sample_Location smp_f ! 1)"
    by (simp add: smp_f_def)
  from samples_follow_records [of "[9, 7]" prof_fh] a b c d e show ?thesis by blast
qed

text \<open>
  C2. When the qualifying events of a sequence, with no goroutine filter, are exactly two
  events of stack identifier 42 whose durations (linked-event timestamp minus event
  timestamp) are 100 and 150, the aggregation of any of the four profiles yields the single
  Record of identifier 42 with count 2 and duration 250, and the Profile built from it has
  exactly one Sample, with the values [2, 250].
\<close>

theorem two_events_one_sample:
  assumes "filter (qualifies c None) events = [e1, e2]"
    and "StkID e1 = 42" and "StkID e2 = 42"
    and "(Ts (the (Link e1)) - Ts e1 = 100 \<and> Ts (the (Link e2)) - Ts e2 = 150) \<or>
         (Ts (the (Link e1)) - Ts e1 = 150 \<and> Ts (the (Link e2)) - Ts e2 = 100)"
    and "iteration_order ks (pprof_prof c None events)"
  shows "pprof_prof c None events = [42 \<mapsto> \<lparr>stk = Stk e2, n = 2, time = 250\<rparr>] \<and>
         map Sample_Value (Profile_Sample (buildProfile ks (pprof_prof c None events))) =
           [[2, 250]]"
proof -
  have "e1 \<in> set (filter (qualifies c None) events)"
    and "e2 \<in> set (filter (qualifies c None) events)"
    by (simp_all add: assms(1))
  then have q: "qualifies c None e1" "qualifies c None e2" by simp_all
  have sum: "duration e1 + duration e2 = 250"
    using assms(4) by (auto simp: qualifies_duration [OF q(1)] qualifies_duration [OF q(2)])
  have es: "events_of c None events k = (if k = 42 then [e1, e2] else [])" for k
    by (simp add: events_of_filter assms(1-3))
  have prof: "pprof_prof c None events = [42 \<mapsto> \<lparr>stk = Stk e2, n = 2, time = 250\<rparr>]"
    by (rule ext) (simp add: pprof_prof_aggregate aggregate_def es sum)
  have "distinct ks" and "set ks = {42}"
    using assms(5) by (simp_all add: iteration_order_def prof)
  then have ks: "ks = [42]" by (rule distinct_singleton)
  have "map Sample_Value (Profile_Sample (buildProfile ks (pprof_prof c None events))) =
      map (\<lambda>r. [n r, time r]) (range_records ks (pprof_prof c None events))"
    by (rule buildProfile_Sample_Value)
  also have "\<dots> = [[2, 250]]"
    by (simp add: ks prof range_records_def)
  finally show ?thesis using prof by simp
qed


lemma filter_three:
  "filter (qualifies IO None) [ev_100, ev_nolink, ev_150] = [ev_100, ev_150]"
  by (simp add: qualifies_examples)

lemma durations_examples:
  "Ts (the (Link ev_100)) - Ts ev_100 = 100" "Ts (the (Link ev_150)) - Ts ev_150 = 150"
  "StkID ev_100 = 42" "StkID ev_150 = 42"
  by (simp_all add: ev_100_def ev_150_def)

lemma iteration_order_three: "iteration_order [42] (pprof_prof IO None [ev_100, ev_nolink, ev_150])"
  by (simp add: pprof_prof_simps pprofIO_prof_three iteration_order_def)

theorem two_events_one_sample_witness:
  "filter (qualifies IO None) [ev_100, ev_nolink, ev_150] = [ev_100, ev_150] \<and>
   Ts (the (Link ev_100)) - Ts ev_100 = 100 \<and> Ts (the (Link ev_150)) - Ts ev_150 = 150 \<and>
   iteration_order [42] (pprofIO_prof None [ev_100, ev_nolink, ev_150]) \<and>
   pprofIO_prof None [ev_100, ev_nolink, ev_150] =
     [42 \<mapsto> \<lparr>stk = Stk ev_150, n = 2, time = 250\<rparr>] \<and>
   map Sample_Value
     (Profile_Sample (buildProfile [42] (pprofIO_prof None [ev_100, ev_nolink, ev_150]))) =
     [[2, 250]]"
proof -
  have d: "(Ts (the (Link ev_100)) - Ts ev_100 = 100 \<and> Ts (the (Link ev_150)) - Ts ev_150 = 150) \<or>
           (Ts (the (Link ev_100)) - Ts ev_100 = 150 \<and> Ts (the (Link ev_150)) - Ts ev_150 = 100)"
    using durations_examples(1,2) by blast
  note inst = two_events_one_sample
    [OF filter_three durations_examples(3,4) d iteration_order_three, unfolded pprof_prof_simps]
  from inst filter_three durations_examples(1,2) iteration_order_three [unfolded pprof_prof_simps]
  show ?thesis by blast
qed

section \<open>The claims about the goroutine filter\<close>

text \<open>
  C6. For every identifier string and event sequence, \<^verbatim>\<open>pprofMatchingGoroutines\<close> returns no
  filter and no error when the identifier is empty; the invalid-goroutine-type error (and
  no filter) when the identifier is not empty and does not parse as a base-10 unsigned
  integer; the no-matching-goroutines error (and no filter), an outcome other than that of
  the empty identifier, when it parses and no goroutine has the parsed value as program
  counter; and otherwise, with no error, the map that holds true for exactly the ids of the
  goroutines whose program counter is the parsed value.
\<close>

theorem goroutine_filter_outcomes:
  fixes ParseUint :: "string \<Rightarrow> u64 option" and analyzeGoroutines :: "event list \<Rightarrow> GDesc list"
  defines "r \<equiv> pprofMatchingGoroutines ParseUint analyzeGoroutines"
  shows "(id_str = [] \<longrightarrow> r id_str events = (None, None)) \<and>
         (id_str \<noteq> [] \<and> ParseUint id_str = None \<longrightarrow>
            r id_str events = (None, Some (InvalidGoroutineType id_str))) \<and>
         (\<forall>pc. id_str \<noteq> [] \<and> ParseUint id_str = Some pc \<and>
               matching_ids pc (analyzeGoroutines events) = {} \<longrightarrow>
            r id_str events = (None, Some (NoMatchingGoroutines id_str)) \<and>
            r id_str events \<noteq> (None, None) \<and>
            NoMatchingGoroutines id_str \<noteq> InvalidGoroutineType id_str) \<and>
         (\<forall>pc. id_str \<noteq> [] \<and> ParseUint id_str = Some pc \<and>
               matching_ids pc (analyzeGoroutines events) \<noteq> {} \<longrightarrow>
            (\<exists>m. r id_str events = (Some m, None) \<and>
                 dom m = matching_ids pc (analyzeGoroutines events) \<and>
                 (\<forall>k. lookup_bool m k \<longleftrightarrow> k \<in> matching_ids pc (analyzeGoroutines events))))"
proof -
  have t: "dom (true_on ids) = ids \<and> (\<forall>k. lookup_bool (true_on ids) k \<longleftrightarrow> k \<in> ids)" for ids
    by (simp add: dom_true_on) (simp add: lookup_bool_def true_on_def)
  show ?thesis
    unfolding r_def pprofMatchingGoroutines_eq using t by auto
qed

theorem goroutine_filter_outcomes_witness:
  "pprofMatchingGoroutines ParseUint10 (\<lambda>events. gs_example) [] [] = (None, None) \<and>
   ParseUint10 ''notanumber'' = None \<and>
   pprofMatchingGoroutines ParseUint10 (\<lambda>events. gs_example) ''notanumber'' [] =
     (None, Some (InvalidGoroutineType ''notanumber'')) \<and>
   ParseUint10 ''999'' = Some 999 \<and> matching_ids 999 gs_example = {} \<and>
   pprofMatchingGoroutines ParseUint10 (\<lambda>events. gs_example) ''999'' [] =
     (None, Some (NoMatchingGoroutines ''999'')) \<and>
   ParseUint10 ''7'' = Some 7 \<and> matching_ids 7 gs_example = {1, 3} \<and>
   (\<exists>m. pprofMatchingGoroutines ParseUint10 (\<lambda>events. gs_example) ''7'' [] = (Some m, None) \<and>
        dom m = {1, 3})"
proof -
  have ne: "''notanumber'' \<noteq> []" "''999'' \<noteq> []" "''7'' \<noteq> []" "{1, 3 :: u64} \<noteq> {}"
    by simp_all
  note a = goroutine_filter_outcomes [of "[]" ParseUint10 "\<lambda>events. gs_example" "[]"]
  note b = goroutine_filter_outcomes [of "''notanumber''" ParseUint10 "\<lambda>events. gs_example" "[]"]
  note c = goroutine_filter_outcomes [of "''999''" ParseUint10 "\<lambda>events. gs_example" "[]"]
  note d = goroutine_filter_outcomes [of "''7''" ParseUint10 "\<lambda>events. gs_example" "[]"]
  have 1: "pprofMatchingGoroutines ParseUint10 (\<lambda>events. gs_example) [] [] = (None, None)"
    using a by blast
  have 2: "pprofMatchingGoroutines ParseUint10 (\<lambda>events. gs_example) ''notanumber'' [] =
     (None, Some (InvalidGoroutineType ''notanumber''))"
    using b ne(1) ParseUint10_7(3) by blast
  have 3: "pprofMatchingGoroutines ParseUint10 (\<lambda>events. gs_example) ''999'' [] =
     (None, Some (NoMatchingGoroutines ''999''))"
    using c ne(2) ParseUint10_7(2) matching_ids_example(2) by blast
  have "matching_ids 7 gs_example \<noteq> {}"
    by (simp add: matching_ids_example(1))
  then have "\<exists>m. pprofMatchingGoroutines ParseUint10 (\<lambda>events. gs_example) ''7'' [] = (Some m, None) \<and>
        dom m = matching_ids 7 gs_example"
    using d ne(3) ParseUint10_7(1) by blast
  then have 4: "\<exists>m. pprofMatchingGoroutines ParseUint10 (\<lambda>events. gs_example) ''7'' [] = (Some m, None) \<and>
        dom m = {1, 3}"
    by (simp only: matching_ids_example(1))
  from 1 2 3 4 ParseUint10_7 matching_ids_example show ?thesis by blast
qed

text \<open>
  C10. \<^verbatim>\<open>pprofMatchingGoroutines\<close> never returns a non-nil empty map. Its outcome is one of
  three: no map and no error, and then the identifier is empty; a map and no error, and
  then the map holds at least one goroutine id and holds true for each id it has; or no
  map and an error.
\<close>

theorem goroutine_filter_never_empty:
  fixes ParseUint :: "string \<Rightarrow> u64 option" and analyzeGoroutines :: "event list \<Rightarrow> GDesc list"
    and id_str :: string and events :: "event list"
  defines "r \<equiv> pprofMatchingGoroutines ParseUint analyzeGoroutines id_str events"
  shows "((id_str = [] \<and> r = (None, None)) \<or>
          (\<exists>m. r = (Some m, None) \<and> dom m \<noteq> {} \<and> (\<forall>k\<in>dom m. m k = Some True)) \<or>
          (\<exists>e. r = (None, Some e))) \<and>
         \<not> (\<exists>m e. r = (Some m, e) \<and> dom m = {})"
proof -
  have t: "ids \<noteq> {} \<Longrightarrow>
      dom (true_on ids) \<noteq> {} \<and> (\<forall>k\<in>dom (true_on ids). true_on ids k = Some True)" for ids
    by (simp add: dom_true_on) (simp add: true_on_def)
  show ?thesis
    unfolding r_def pprofMatchingGoroutines_eq using t
    by (auto split: option.splits)
qed

theorem goroutine_filter_never_empty_witness:
  "pprofMatchingGoroutines ParseUint10 (\<lambda>events. gs_example) ''7'' [] =
     (Some (true_on {1, 3}), None) \<and>
   dom (true_on {1, 3 :: u64}) \<noteq> {}"
proof -
  have v: "pprofMatchingGoroutines ParseUint10 (\<lambda>events. gs_example) ''7'' [] =
     (Some (true_on {1, 3}), None)"
    by (simp add: pprofMatchingGoroutines_eq ParseUint10_7 matching_ids_example)
  from goroutine_filter_never_empty [where ParseUint = ParseUint10
      and analyzeGoroutines = "\<lambda>events. gs_example" and id_str = "''7''" and events = "[]"]
  have "\<not> (\<exists>m e. pprofMatchingGoroutines ParseUint10 (\<lambda>events. gs_example) ''7'' [] = (Some m, e) \<and>
      dom m = {})"
    by blast
  with v show ?thesis by blast
qed

section \<open>The claim about the render service\<close>





end
